theory Spec2Isabelle
  imports Complex_Main "HOL-Library.Multiset"
begin

section \<open>The model\<close>

subsection \<open>Masonry distributor (the \<open>columns\<close> memo of the FAQ component)\<close>

text \<open>
  The FAQ component computes its columns as
  \<^verbatim>\<open>
  const arr = Array.from({ length: cols }, () => []);
  questions.forEach((item, idx) => {
    arr[idx % cols].push({ ...item, index: idx });
  });
  return arr;
  \<close>
  The object pushed is a copy of the item extended with its original index; it is
  modelled as the pair \<open>(idx, item)\<close>. With \<open>cols = 0\<close> the array is empty and
  \<open>idx % cols\<close> is \<open>NaN\<close>, so \<open>arr[idx % cols]\<close> is \<open>undefined\<close> and the call of
  \<open>push\<close> raises a \<open>TypeError\<close>; the same happens for any index outside the array.
\<close>

datatype js_error = TypeError

fun forEach_push ::
  "nat \<Rightarrow> nat \<Rightarrow> 'a list \<Rightarrow> (nat \<times> 'a) list list \<Rightarrow> js_error + (nat \<times> 'a) list list" where
  "forEach_push cols idx [] arr = Inr arr"
| "forEach_push cols idx (item # rest) arr =
     (if cols = 0 then Inl TypeError
      else if idx mod cols < length arr
        then forEach_push cols (Suc idx) rest
               (arr[idx mod cols := arr ! (idx mod cols) @ [(idx, item)]])
        else Inl TypeError)"

definition distribute :: "'a list \<Rightarrow> nat \<Rightarrow> js_error + (nat \<times> 'a) list list" where
  "distribute questions cols = forEach_push cols 0 questions (replicate cols [])"

text \<open>The items of column \<open>c\<close> as the contract words it: those whose index is \<open>c\<close> modulo the
  column count, in their original order.\<close>

definition bucket_spec :: "nat \<Rightarrow> nat \<Rightarrow> (nat \<times> 'a) list \<Rightarrow> (nat \<times> 'a) list" where
  "bucket_spec cols c ixs = filter (\<lambda>p. fst p mod cols = c) ixs"


subsection \<open>Column count of the FAQ component\<close>

text \<open>
  The state \<open>cols\<close> is initialised by
  \<^verbatim>\<open>
  if (typeof window === "undefined") return 1;
  const w = window.innerWidth;
  if (w >= 1024) return 3;
  if (w >= 640) return 2;
  return 1;
  \<close>
  and the resize listener sets it to 3, 2 or 1 by the same comparisons. The window is
  an optional width: \<open>None\<close> is the server-side case where \<open>window\<close> is undefined.
\<close>

definition initialCols :: "real option \<Rightarrow> nat" where
  "initialCols window =
     (case window of
        None \<Rightarrow> 1
      | Some w \<Rightarrow> if w \<ge> 1024 then 3 else if w \<ge> 640 then 2 else 1)"

definition onResize :: "real \<Rightarrow> nat \<Rightarrow> nat" where
  "onResize w cols = (if w \<ge> 1024 then 3 else if w \<ge> 640 then 2 else 1)"

text \<open>The value of \<open>cols\<close> after mounting in a window and a sequence of resize events, each
  given by the inner width the listener reads.\<close>

definition cols_after :: "real option \<Rightarrow> real list \<Rightarrow> nat" where
  "cols_after window resizes = foldl (\<lambda>cols w. onResize w cols) (initialCols window) resizes"

subsection \<open>Hash navigation\<close>

text \<open>
  \<^verbatim>\<open>
  const attemptScroll = (attempts = 0) => {
      const element = document.getElementById(sectionId);
      if (element) {
          element.scrollIntoView({ behavior: 'smooth', block: 'start' });
      } else if (attempts < 10) {
          setTimeout(() => attemptScroll(attempts + 1), 100);
      }
  };
  setTimeout(() => attemptScroll(), 100);
  \<close>
  Time is counted in milliseconds. The document is a function of time: \<open>doc t i\<close> says
  whether an element with id \<open>i\<close> exists at time \<open>t\<close>. A timer set for 100ms runs its
  callback no earlier than that; \<open>late k\<close> is how much later the callback of the \<open>k\<close>-th
  timer of the invocation runs (the initial timer is number 0, the timer set by
  \<open>attemptScroll(n)\<close> is number \<open>n + 1\<close>). At most one timer is pending at any time, so
  the callbacks are run in the order they are set and the model follows them directly.
  The result is the list of everything the invocation ever does to the document, in
  order: id lookups and scroll invocations, each with its time. \<open>ScrollIntoView i t\<close>
  is the call \<^verbatim>\<open>element.scrollIntoView({ behavior: 'smooth', block: 'start' })\<close> on the
  element with id \<open>i\<close> at time \<open>t\<close>.
\<close>

datatype nav_event = Lookup string nat | ScrollIntoView string nat

function attemptScroll ::
  "(nat \<Rightarrow> string \<Rightarrow> bool) \<Rightarrow> (nat \<Rightarrow> nat) \<Rightarrow> string \<Rightarrow> nat \<Rightarrow> nat \<Rightarrow> nav_event list" where
  "attemptScroll doc late sectionId now attempts =
     Lookup sectionId now #
       (if doc now sectionId then [ScrollIntoView sectionId now]
        else if attempts < 10
          then attemptScroll doc late sectionId (now + 100 + late (Suc attempts)) (Suc attempts)
          else [])"
  by pat_completeness auto
termination
  by (relation "measure (\<lambda>(doc, late, sectionId, now, attempts). 10 - attempts)") auto

text \<open>\<open>window.location.hash\<close> is the empty string or starts with \<open>#\<close>; the empty string is
  falsy, and \<open>hash.substring(1)\<close> drops the first character.\<close>

definition handleHashNavigation ::
  "string \<Rightarrow> (nat \<Rightarrow> string \<Rightarrow> bool) \<Rightarrow> (nat \<Rightarrow> nat) \<Rightarrow> nat \<Rightarrow> nav_event list" where
  "handleHashNavigation hash doc late now =
     (if hash = [] then []
      else attemptScroll doc late (drop 1 hash) (now + 100 + late 0) 0)"

text \<open>The time at which \<open>attemptScroll(k)\<close> runs, for an invocation at time \<open>now\<close>.\<close>

fun attempt_time :: "(nat \<Rightarrow> nat) \<Rightarrow> nat \<Rightarrow> nat \<Rightarrow> nat" where
  "attempt_time late now 0 = now + 100 + late 0"
| "attempt_time late now (Suc k) = attempt_time late now k + 100 + late (Suc k)"

fun is_scroll :: "nav_event \<Rightarrow> bool" where
  "is_scroll (ScrollIntoView i t) = True"
| "is_scroll (Lookup i t) = False"

subsection \<open>JavaScript numbers\<close>

text \<open>
  A number is \<open>NaN\<close>, an infinity or a finite value. Finite values are taken as reals:
  rounding is not modelled. What is modelled is where \<open>NaN\<close> and the infinities arise
  and how \<open>Math.max\<close> and \<open>Math.min\<close> treat them, which rounding does not change for
  the operations below: a quotient of finite numbers is \<open>NaN\<close> exactly when both are
  zero, and \<open>Math.max\<close> and \<open>Math.min\<close> return \<open>NaN\<close> when an argument is \<open>NaN\<close>.
  The divisor zero is the positive zero a difference of equal numbers gives.
\<close>

datatype jsnum = NaN | NegInf | Fin real | PosInf

definition js_div :: "real \<Rightarrow> real \<Rightarrow> jsnum" where
  "js_div x y =
     (if y = 0 then (if x = 0 then NaN else if 0 < x then PosInf else NegInf)
      else Fin (x / y))"

fun js_times :: "jsnum \<Rightarrow> real \<Rightarrow> jsnum" where
  "js_times NaN c = NaN"
| "js_times (Fin x) c = Fin (x * c)"
| "js_times PosInf c = (if c = 0 then NaN else if 0 < c then PosInf else NegInf)"
| "js_times NegInf c = (if c = 0 then NaN else if 0 < c then NegInf else PosInf)"

fun Math_max :: "jsnum \<Rightarrow> jsnum \<Rightarrow> jsnum" where
  "Math_max NaN b = NaN"
| "Math_max a NaN = NaN"
| "Math_max PosInf b = PosInf"
| "Math_max a PosInf = PosInf"
| "Math_max NegInf b = b"
| "Math_max a NegInf = a"
| "Math_max (Fin x) (Fin y) = Fin (max x y)"

fun Math_min :: "jsnum \<Rightarrow> jsnum \<Rightarrow> jsnum" where
  "Math_min NaN b = NaN"
| "Math_min a NaN = NaN"
| "Math_min NegInf b = NegInf"
| "Math_min a NegInf = NegInf"
| "Math_min PosInf b = b"
| "Math_min a PosInf = a"
| "Math_min (Fin x) (Fin y) = Fin (min x y)"

subsection \<open>Character walker (the scroll handler of \<open>ScrollProgressCharacter\<close>)\<close>

text \<open>
  The component's state and refs, and what the handler reads from the window and the
  document when it runs: the scroll position, the document's scroll height, the
  viewport height, the top of the footer's bounding rectangle (when there is a footer)
  and the current time.
\<close>

record walker =
  scrollProgress :: jsnum
  isWalking :: bool
  direction :: int
  footerHeight :: real
  lastScrollY :: real
  walkingTimeout :: "nat option"

record reading =
  scrollY :: real
  scrollHeight :: real
  innerHeight :: real
  footerTop :: "real option"
  time :: nat

definition initial_walker :: walker where
  "initial_walker =
     \<lparr>scrollProgress = Fin 0, isWalking = False, direction = 1, footerHeight = 0,
      lastScrollY = 0, walkingTimeout = None\<rparr>"

text \<open>\<^verbatim>\<open>Math.min(Math.max((scrollY / maxScroll) * 100, 0), 100)\<close> with
  \<^verbatim>\<open>maxScroll = document.documentElement.scrollHeight - window.innerHeight\<close>.\<close>

definition progress :: "reading \<Rightarrow> jsnum" where
  "progress r =
     (let maxScroll = scrollHeight r - innerHeight r
      in Math_min (Math_max (js_times (js_div (scrollY r) maxScroll) 100) (Fin 0)) (Fin 100))"

definition handleScroll :: "reading \<Rightarrow> walker \<Rightarrow> walker" where
  "handleScroll r s =
     (let scrollDelta = scrollY r - lastScrollY s;
          s1 = (if \<bar>scrollDelta\<bar> > 1
                then s\<lparr>direction := (if scrollDelta > 0 then 1 else - 1),
                       isWalking := True,
                       walkingTimeout := Some (time r + 100)\<rparr>
                else s);
          s2 = s1\<lparr>lastScrollY := scrollY r, scrollProgress := progress r\<rparr>
      in case footerTop r of
           None \<Rightarrow> s2
         | Some footerRectTop \<Rightarrow> s2\<lparr>footerHeight := max 0 (innerHeight r - footerRectTop)\<rparr>)"

text \<open>The callback of the walking timer, when it is due.\<close>

definition walkingTimeout_fires :: "walker \<Rightarrow> walker" where
  "walkingTimeout_fires s = s\<lparr>isWalking := False, walkingTimeout := None\<rparr>"

text \<open>The range of a scroll percentage: a finite number from 0 to 100.\<close>

fun in_percent_range :: "jsnum \<Rightarrow> bool" where
  "in_percent_range (Fin x) = (0 \<le> x \<and> x \<le> 100)"
| "in_percent_range v = False"

subsection \<open>Control curves\<close>

text \<open>
  The components pass their breakpoints and values to \<open>useTransform\<close>, which they import
  from the animation library; its code is not part of the sources, so the evaluator
  below follows the specification of the interpolation engine. Values are reals: the
  rounding of double precision is not modelled.
\<close>

type_synonym curve = "(real \<times> real) list"

text \<open>Modelled from the spec: the linear interpolation between two points of a curve, each
  a breakpoint with its value (the library's interpolation is missing from the sources).\<close>

definition lerp :: "real \<times> real \<Rightarrow> real \<times> real \<Rightarrow> real \<Rightarrow> real" where
  "lerp p q t = snd p + (snd q - snd p) * ((t - fst p) / (fst q - fst p))"

text \<open>Modelled from the spec: the search for the two bounding breakpoints of \<open>t\<close>, from the
  point \<open>p\<close> on (the library's search is missing from the sources).\<close>

fun between :: "real \<times> real \<Rightarrow> curve \<Rightarrow> real \<Rightarrow> real" where
  "between p [] t = snd p"
| "between p (q # rest) t = (if t < fst q then lerp p q t else between q rest t)"

text \<open>Modelled from the spec: the evaluator of a control curve, missing from the sources.
  The specification says: for \<open>t\<close> at or below the first breakpoint, return the first
  value; for \<open>t\<close> at or above the last breakpoint, return the last value; otherwise
  interpolate linearly between the two bounding breakpoints. A curve without points
  has no value.\<close>

definition evaluate :: "curve \<Rightarrow> real \<Rightarrow> real option" where
  "evaluate c t =
     (case c of
        [] \<Rightarrow> None
      | p # rest \<Rightarrow>
          Some (if t \<le> fst p then snd p
                else if fst (last c) \<le> t then snd (last c)
                else between p rest t))"

text \<open>Modelled from the spec: \<open>useTransform(progress, inputRange, outputRange)\<close>, missing
  from the sources, as the evaluation of the curve whose breakpoints are the input
  range and whose values are the output range.\<close>

definition useTransform :: "real \<Rightarrow> real list \<Rightarrow> real list \<Rightarrow> real option" where
  "useTransform t inputRange outputRange = evaluate (zip inputRange outputRange) t"

text \<open>The curves of \<open>SectionWrapper\<close>, with the breakpoints and values of its source. The
  direction is the string of the \<open>animationDirection\<close> prop.\<close>

definition blendTopOpacity :: "real \<Rightarrow> real option" where
  "blendTopOpacity t = useTransform t [0, 0.15] [1, 0]"

definition blendBottomOpacity :: "real \<Rightarrow> real option" where
  "blendBottomOpacity t = useTransform t [0.85, 1] [0, 1]"

definition contentOpacity :: "real \<Rightarrow> real option" where
  "contentOpacity t = useTransform t [0, 0.2, 0.8, 1] [0, 1, 1, 0]"

definition contentY :: "string \<Rightarrow> real \<Rightarrow> real option" where
  "contentY animationDirection t =
     useTransform t [0, 0.25, 0.75, 1]
       (if animationDirection = ''up'' then [80, 0, 0, - 80]
        else if animationDirection = ''down'' then [- 80, 0, 0, 80]
        else [0, 0, 0, 0])"

definition contentX :: "string \<Rightarrow> real \<Rightarrow> real option" where
  "contentX animationDirection t =
     useTransform t [0, 0.25, 0.75, 1]
       (if animationDirection = ''left'' then [80, 0, 0, - 80]
        else if animationDirection = ''right'' then [- 80, 0, 0, 80]
        else [0, 0, 0, 0])"

definition contentScale :: "real \<Rightarrow> real option" where
  "contentScale t = useTransform t [0, 0.2, 0.8, 1] [0.95, 1, 1, 0.98]"

text \<open>The curves of the \<open>useScrollSection\<close> hook.\<close>

definition useScrollSection_opacity :: "real \<Rightarrow> real option" where
  "useScrollSection_opacity t = useTransform t [0, 0.2, 0.8, 1] [0, 1, 1, 0]"

definition useScrollSection_y :: "real \<Rightarrow> real option" where
  "useScrollSection_y t = useTransform t [0, 0.3, 0.7, 1] [100, 0, 0, - 100]"

definition useScrollSection_scale :: "real \<Rightarrow> real option" where
  "useScrollSection_scale t = useTransform t [0, 0.2, 0.8, 1] [0.95, 1, 1, 0.95]"

definition useScrollSection_blur :: "real \<Rightarrow> real option" where
  "useScrollSection_blur t = useTransform t [0, 0.2, 0.8, 1] [10, 0, 0, 10]"

section \<open>Masonry distribution is a round-robin partition\<close>

subsection \<open>The loop invariant\<close>

lemma forEach_push_buckets:
  assumes "0 < cols" and "length arr = cols"
  shows "\<exists>arr'. forEach_push cols idx items arr = Inr arr' \<and> length arr' = cols \<and>
           (\<forall>c<cols. arr' ! c = arr ! c @ bucket_spec cols c (enumerate idx items))"
  using assms
proof (induction items arbitrary: idx arr)
  case Nil
  then show ?case by (simp add: bucket_spec_def)
next
  case (Cons item rest)
  let ?k = "idx mod cols"
  let ?arr1 = "arr[?k := arr ! ?k @ [(idx, item)]]"
  have k: "?k < cols" using Cons.prems(1) by simp
  have len1: "length ?arr1 = cols" using Cons.prems(2) by simp
  from Cons.IH[OF Cons.prems(1) len1, of "Suc idx"]
  obtain arr' where run: "forEach_push cols (Suc idx) rest ?arr1 = Inr arr'"
    and len': "length arr' = cols"
    and cols': "\<forall>c<cols. arr' ! c = ?arr1 ! c @ bucket_spec cols c (enumerate (Suc idx) rest)"
    by blast
  have "forEach_push cols idx (item # rest) arr = Inr arr'"
    using run k Cons.prems by simp
  moreover have "arr' ! c = arr ! c @ bucket_spec cols c (enumerate idx (item # rest))"
    if c: "c < cols" for c
  proof (cases "c = ?k")
    case True
    then show ?thesis using cols' c Cons.prems(2) by (simp add: bucket_spec_def)
  next
    case False
    then show ?thesis using cols' c Cons.prems(2) by (auto simp: bucket_spec_def)
  qed
  ultimately show ?case using len' by blast
qed

lemma distribute_buckets:
  assumes "0 < cols"
  shows "\<exists>arr. distribute items cols = Inr arr \<and> length arr = cols \<and>
           (\<forall>c<cols. arr ! c = bucket_spec cols c (enumerate 0 items))"
proof -
  from forEach_push_buckets[OF assms, of "replicate cols []" 0 items]
  show ?thesis by (auto simp: distribute_def)
qed

subsection \<open>The columns partition the indexed items\<close>

lemma bucket_sum_Cons:
  "(\<Sum>c\<leftarrow>cs. mset (bucket_spec cols c (p # ixs))) =
     (\<Sum>c\<leftarrow>cs. if fst p mod cols = c then {#p#} else {#}) +
     (\<Sum>c\<leftarrow>cs. mset (bucket_spec cols c ixs))"
  by (induction cs) (simp_all add: bucket_spec_def)

lemma one_bucket:
  assumes "0 < cols"
  shows "(\<Sum>c\<leftarrow>[0..<cols]. if k mod cols = c then {#p#} else {#}) = {#p#}"
  using assms by (simp add: interv_sum_list_conv_sum_set_nat sum.delta)

lemma bucket_mset:
  assumes "0 < cols"
  shows "(\<Sum>c\<leftarrow>[0..<cols]. mset (bucket_spec cols c ixs)) = mset ixs"
proof (induction ixs)
  case Nil
  then show ?case by (simp add: bucket_spec_def)
next
  case (Cons p ixs)
  then show ?case by (simp add: bucket_sum_Cons one_bucket[OF assms])
qed

lemma concat_nth_mset:
  "mset (concat arr) = (\<Sum>c\<leftarrow>[0..<length arr]. mset (arr ! c))"
proof -
  have "arr = map (\<lambda>c. arr ! c) [0..<length arr]" by (simp add: map_nth)
  then have "mset (concat arr) = mset (concat (map (\<lambda>c. arr ! c) [0..<length arr]))" by simp
  also have "\<dots> = (\<Sum>c\<leftarrow>[0..<length arr]. mset (arr ! c))"
    by (simp only: mset_concat map_map comp_def)
  finally show ?thesis .
qed


lemma distribute_example:
  "distribute [0, 1, 2, 3, 4, 5, 6, 7, 8, 9 :: nat] 3 =
     Inr [[(0, 0), (3, 3), (6, 6), (9, 9)], [(1, 1), (4, 4), (7, 7)], [(2, 2), (5, 5), (8, 8)]]"
  by code_simp

text \<open>
  C1. For every item list and every positive column count the distribution succeeds
  and yields exactly \<open>cols\<close> columns; column \<open>c\<close> holds, in their original order, the
  items whose original index is \<open>c\<close> modulo \<open>cols\<close>, so the item of index \<open>i\<close> is in
  column \<open>i mod cols\<close> and in no other. The columns are a partition of the indexed
  items: no entry occurs twice, the entries are those of the original list, each once,
  and the items of the columns are the original items. For three columns and the
  items 0..9 the columns are [0,3,6,9], [1,4,7] and [2,5,8].
\<close>

theorem distribute_round_robin_partition:
  assumes "0 < cols"
  shows "\<exists>arr. distribute items cols = Inr arr \<and> length arr = cols \<and>
           (\<forall>c<cols. arr ! c = filter (\<lambda>p. fst p mod cols = c) (enumerate 0 items)) \<and>
           (\<forall>i<length items. (i, items ! i) \<in> set (arr ! (i mod cols)) \<and>
              (\<forall>c<cols. (i, items ! i) \<in> set (arr ! c) \<longrightarrow> c = i mod cols)) \<and>
           distinct (concat arr) \<and>
           mset (concat arr) = mset (enumerate 0 items) \<and>
           set (map snd (concat arr)) = set items \<and>
           distribute [0, 1, 2, 3, 4, 5, 6, 7, 8, 9 :: nat] 3 =
             Inr [[(0, 0), (3, 3), (6, 6), (9, 9)], [(1, 1), (4, 4), (7, 7)],
                  [(2, 2), (5, 5), (8, 8)]]"
proof -
  from distribute_buckets[OF assms, of items]
  obtain arr where run: "distribute items cols = Inr arr" and len: "length arr = cols"
    and col: "\<forall>c<cols. arr ! c = bucket_spec cols c (enumerate 0 items)"
    by blast
  have mem: "(i, items ! i) \<in> set (arr ! c) \<longleftrightarrow> c = i mod cols"
    if "i < length items" and "c < cols" for i c
    using that col by (auto simp: bucket_spec_def in_set_enumerate_eq)
  have ms: "mset (concat arr) = mset (enumerate 0 items)"
  proof -
    have "mset (concat arr) = (\<Sum>c\<leftarrow>[0..<cols]. mset (arr ! c))"
      using concat_nth_mset[of arr] len by simp
    also have "\<dots> = (\<Sum>c\<leftarrow>[0..<cols]. mset (bucket_spec cols c (enumerate 0 items)))"
      using col by (intro arg_cong[where f = sum_list] map_cong) auto
    finally show ?thesis by (simp add: bucket_mset[OF assms])
  qed
  have dist: "distinct (concat arr)"
    using ms distinct_enumerate[of 0 items] by (metis mset_eq_imp_distinct_iff)
  have items: "set (map snd (concat arr)) = set items"
  proof -
    have "set (concat arr) = set (enumerate 0 items)" using ms by (rule mset_eq_setD)
    then have "set (map snd (concat arr)) = snd ` set (enumerate 0 items)" by simp
    also have "\<dots> = set items" by (metis set_map map_snd_enumerate)
    finally show ?thesis .
  qed
  have "\<forall>c<cols. arr ! c = filter (\<lambda>p. fst p mod cols = c) (enumerate 0 items)"
    using col by (simp add: bucket_spec_def)
  moreover have "\<forall>i<length items. (i, items ! i) \<in> set (arr ! (i mod cols)) \<and>
              (\<forall>c<cols. (i, items ! i) \<in> set (arr ! c) \<longrightarrow> c = i mod cols)"
    using mem assms by simp
  ultimately show ?thesis using run len dist ms items distribute_example by blast
qed

theorem distribute_round_robin_partition_witness:
  "(0::nat) < 3 \<and>
   (\<exists>arr. distribute ''abcdefghij'' 3 = Inr arr \<and> length arr = 3 \<and>
      arr ! 0 = [(0, CHR ''a''), (3, CHR ''d''), (6, CHR ''g''), (9, CHR ''j'')] \<and>
      arr ! 1 = [(1, CHR ''b''), (4, CHR ''e''), (7, CHR ''h'')] \<and>
      arr ! 2 = [(2, CHR ''c''), (5, CHR ''f''), (8, CHR ''i'')] \<and>
      distinct (concat arr) \<and> set (map snd (concat arr)) = set ''abcdefghij'')"
proof -
  have pos: "(0::nat) < 3" by simp
  from distribute_round_robin_partition[OF pos, of "''abcdefghij''"]
  obtain arr where run: "distribute ''abcdefghij'' 3 = Inr arr" and len: "length arr = 3"
    and col: "\<forall>c<3. arr ! c = filter (\<lambda>p. fst p mod 3 = c) (enumerate 0 ''abcdefghij'')"
    and dist: "distinct (concat arr)"
    and items: "set (map snd (concat arr)) = set ''abcdefghij''"
    by blast
  have c0: "arr ! 0 = filter (\<lambda>p. fst p mod 3 = 0) (enumerate 0 ''abcdefghij'')"
    and c1: "arr ! 1 = filter (\<lambda>p. fst p mod 3 = 1) (enumerate 0 ''abcdefghij'')"
    and c2: "arr ! 2 = filter (\<lambda>p. fst p mod 3 = 2) (enumerate 0 ''abcdefghij'')"
    using col by simp_all
  have "arr ! 0 = [(0, CHR ''a''), (3, CHR ''d''), (6, CHR ''g''), (9, CHR ''j'')]"
    unfolding c0 by code_simp
  moreover have "arr ! 1 = [(1, CHR ''b''), (4, CHR ''e''), (7, CHR ''h'')]"
    unfolding c1 by code_simp
  moreover have "arr ! 2 = [(2, CHR ''c''), (5, CHR ''f''), (8, CHR ''i'')]"
    unfolding c2 by code_simp
  ultimately show ?thesis using pos run len dist items by blast
qed

section \<open>The column count is a function of the viewport width\<close>

lemma cols_after_last:
  "foldl (\<lambda>cols w. onResize w cols) (onResize w c) ws = onResize (last (w # ws)) c'"
  by (induction ws arbitrary: w c) (simp_all add: onResize_def)

text \<open>
  C8. For every viewport width \<open>w\<close> the column count is 3 if \<open>w \<ge> 1024\<close>, else 2 if
  \<open>w \<ge> 640\<close>, else 1, both when the component mounts in a window and when a resize event
  arrives, whatever the count was before. The boundary is inclusive: a width of exactly
  1024 gives 3 columns, and a resize from 1023 to 1024 moves the count from 2 to 3.
  After any sequence of resize events the count is this function of the last width.
\<close>

theorem column_count_of_width:
  "initialCols (Some w) = (if w \<ge> 1024 then 3 else if w \<ge> 640 then 2 else 1) \<and>
   onResize w cols = (if w \<ge> 1024 then 3 else if w \<ge> 640 then 2 else 1) \<and>
   (onResize w cols = 3 \<longleftrightarrow> 1024 \<le> w) \<and>
   (onResize w cols = 2 \<longleftrightarrow> 640 \<le> w \<and> w < 1024) \<and>
   (onResize w cols = 1 \<longleftrightarrow> w < 640) \<and>
   initialCols (Some 1024) = 3 \<and> onResize 1024 2 = 3 \<and> onResize 1023 3 = 2 \<and>
   cols_after (Some w) ws = initialCols (Some (last (w # ws)))"
proof -
  have same: "initialCols (Some v) = onResize v c" for v c
    by (simp add: initialCols_def onResize_def)
  have "cols_after (Some w) ws = initialCols (Some (last (w # ws)))"
    unfolding cols_after_def same[of w 0] same[of "last (w # ws)" 0]
    by (rule cols_after_last)
  then show ?thesis
    by (simp add: initialCols_def onResize_def)
qed

section \<open>The character walker\<close>

subsection \<open>Facing direction\<close>

lemma handleScroll_direction_eq:
  "direction (handleScroll r s) =
     (if \<bar>scrollY r - lastScrollY s\<bar> > 1
      then (if scrollY r - lastScrollY s > 0 then 1 else - 1) else direction s)"
  by (simp add: handleScroll_def Let_def split: option.split)

text \<open>
  C7. When the scroll position differs from the previous one by at most 1 pixel, the
  handler leaves the facing direction as it was; when it differs by more than 1 pixel,
  the direction becomes the sign of the difference, current minus previous. The
  previous position is then the current one.
\<close>

theorem handleScroll_direction:
  "(\<bar>scrollY r - lastScrollY s\<bar> \<le> 1 \<longrightarrow> direction (handleScroll r s) = direction s) \<and>
   (\<bar>scrollY r - lastScrollY s\<bar> > 1 \<longrightarrow>
      of_int (direction (handleScroll r s)) = sgn (scrollY r - lastScrollY s)) \<and>
   lastScrollY (handleScroll r s) = scrollY r"
proof -
  have "lastScrollY (handleScroll r s) = scrollY r"
    by (simp add: handleScroll_def Let_def split: option.split)
  then show ?thesis
    by (auto simp: handleScroll_direction_eq sgn_real_def)
qed

theorem handleScroll_direction_witness:
  "\<bar>scrollY \<lparr>scrollY = 10.5, scrollHeight = 3000, innerHeight = 800, footerTop = None, time = 0\<rparr>
      - lastScrollY (initial_walker\<lparr>direction := - 1, lastScrollY := 10\<rparr>)\<bar> \<le> 1 \<and>
   direction (handleScroll
      \<lparr>scrollY = 10.5, scrollHeight = 3000, innerHeight = 800, footerTop = None, time = 0\<rparr>
      (initial_walker\<lparr>direction := - 1, lastScrollY := 10\<rparr>)) = - 1 \<and>
   \<bar>scrollY \<lparr>scrollY = 7, scrollHeight = 3000, innerHeight = 800, footerTop = None, time = 0\<rparr>
      - lastScrollY (initial_walker\<lparr>lastScrollY := 10\<rparr>)\<bar> > 1 \<and>
   direction (handleScroll
      \<lparr>scrollY = 7, scrollHeight = 3000, innerHeight = 800, footerTop = None, time = 0\<rparr>
      (initial_walker\<lparr>lastScrollY := 10\<rparr>)) = - 1"
proof -
  let ?r1 = "\<lparr>scrollY = 10.5, scrollHeight = 3000, innerHeight = 800, footerTop = None, time = 0\<rparr>"
  let ?s1 = "initial_walker\<lparr>direction := - 1, lastScrollY := 10\<rparr>"
  let ?r2 = "\<lparr>scrollY = 7, scrollHeight = 3000, innerHeight = 800, footerTop = None, time = 0\<rparr>"
  let ?s2 = "initial_walker\<lparr>lastScrollY := 10\<rparr>"
  have small: "\<bar>scrollY ?r1 - lastScrollY ?s1\<bar> \<le> 1" by simp
  have big: "\<bar>scrollY ?r2 - lastScrollY ?s2\<bar> > 1" by simp
  from handleScroll_direction[of ?r1 ?s1] small
  have "direction (handleScroll ?r1 ?s1) = direction ?s1" by blast
  then have d1: "direction (handleScroll ?r1 ?s1) = - 1" by simp
  from handleScroll_direction[of ?r2 ?s2] big
  have "of_int (direction (handleScroll ?r2 ?s2)) = sgn (scrollY ?r2 - lastScrollY ?s2)" by blast
  then have "(of_int (direction (handleScroll ?r2 ?s2)) :: real) = of_int (- 1)" by simp
  then have d2: "direction (handleScroll ?r2 ?s2) = - 1" by (simp only: of_int_eq_iff)
  show ?thesis using small big d1 d2 by blast
qed

subsection \<open>Scroll progress\<close>

lemma progress_cases:
  "progress r =
     (if scrollHeight r - innerHeight r = 0
      then (if scrollY r = 0 then NaN else if 0 < scrollY r then Fin 100 else Fin 0)
      else Fin (min (max (scrollY r / (scrollHeight r - innerHeight r) * 100) 0) 100))"
  by (simp add: progress_def js_div_def Let_def)

lemma handleScroll_scrollProgress:
  "scrollProgress (handleScroll r s) = progress r"
  by (simp add: handleScroll_def Let_def split: option.split)

text \<open>
  C5. The scroll progress the handler stores is a percentage from 0 to 100 for every
  scroll position, negative or beyond the scrollable distance, except in one case: at
  scroll position 0 of a document exactly as high as the viewport the quotient is
  \<open>0 / 0\<close>, and the stored progress is \<open>NaN\<close>, for instance for a document and a
  viewport of height 800.
\<close>

theorem progress_in_range_iff:
  "(in_percent_range (scrollProgress (handleScroll r s)) \<longleftrightarrow>
      \<not> (scrollY r = 0 \<and> scrollHeight r = innerHeight r)) \<and>
   scrollProgress (handleScroll
      \<lparr>scrollY = 0, scrollHeight = 800, innerHeight = 800, footerTop = None, time = 0\<rparr>
      initial_walker) = NaN"
  by (simp add: handleScroll_scrollProgress progress_cases)

text \<open>
  C6. When the document is exactly as high as the viewport, the quotient has the divisor
  zero and nothing guards it: at scroll position 0 the progress is \<open>NaN\<close>, which
  \<open>Math.max\<close> and \<open>Math.min\<close> pass on, and the handler stores it. (At a positive position
  the quotient is infinite and is clamped to 100, at a negative one to 0.)
\<close>

theorem progress_NaN_without_scroll_range:
  "progress (r\<lparr>innerHeight := scrollHeight r\<rparr>) =
     (if scrollY r = 0 then NaN else if 0 < scrollY r then Fin 100 else Fin 0) \<and>
   scrollProgress (handleScroll (r\<lparr>scrollY := 0, innerHeight := scrollHeight r\<rparr>) s) = NaN \<and>
   \<not> in_percent_range (scrollProgress
          (handleScroll (r\<lparr>scrollY := 0, innerHeight := scrollHeight r\<rparr>) s))"
  by (simp add: handleScroll_scrollProgress progress_cases)

section \<open>Hash navigation: a bounded retry loop\<close>

declare attemptScroll.simps [simp del]

lemma attempt_time_punctual: "attempt_time (\<lambda>k. 0) now k = now + 100 * Suc k"
  by (induction k) simp_all

lemma attempt_time_lower: "now + 100 + k * 100 \<le> attempt_time late now k"
  by (induction k) simp_all

lemma attemptScroll_found:
  assumes "n \<le> k" and "k \<le> 10"
    and "\<forall>j. n \<le> j \<and> j < k \<longrightarrow> \<not> doc (attempt_time late now j) sid"
    and "doc (attempt_time late now k) sid"
  shows "attemptScroll doc late sid (attempt_time late now n) n =
           map (\<lambda>j. Lookup sid (attempt_time late now j)) [n..<Suc k] @
           [ScrollIntoView sid (attempt_time late now k)]"
  using assms
proof (induction "k - n" arbitrary: n)
  case 0
  then have "n = k" by simp
  then show ?case using "0.prems"(4) by (subst attemptScroll.simps) simp
next
  case (Suc d)
  then have lt: "n < k" and n10: "n < 10" by simp_all
  have absent: "\<not> doc (attempt_time late now n) sid" using Suc.prems(3) lt by simp
  have "attemptScroll doc late sid (attempt_time late now (Suc n)) (Suc n) =
          map (\<lambda>j. Lookup sid (attempt_time late now j)) [Suc n..<Suc k] @
          [ScrollIntoView sid (attempt_time late now k)]"
    using Suc.hyps Suc.prems lt by (intro Suc.hyps(1)) auto
  moreover have "[n..<Suc k] = n # [Suc n..<Suc k]" using lt by (simp add: upt_conv_Cons)
  ultimately show ?case using absent n10
    by (subst attemptScroll.simps) simp
qed

lemma attemptScroll_absent:
  assumes "n \<le> 10"
    and "\<forall>j. n \<le> j \<and> j \<le> 10 \<longrightarrow> \<not> doc (attempt_time late now j) sid"
  shows "attemptScroll doc late sid (attempt_time late now n) n =
           map (\<lambda>j. Lookup sid (attempt_time late now j)) [n..<11]"
  using assms
proof (induction "10 - n" arbitrary: n)
  case 0
  then have n: "n = 10" by simp
  have "[10..<11] = [10::nat]" by (simp add: upt_conv_Cons)
  then show ?case using "0.prems"(2) unfolding n by (subst attemptScroll.simps) simp
next
  case (Suc d)
  then have n10: "n < 10" by simp
  have absent: "\<not> doc (attempt_time late now n) sid" using Suc.prems by simp
  have "attemptScroll doc late sid (attempt_time late now (Suc n)) (Suc n) =
          map (\<lambda>j. Lookup sid (attempt_time late now j)) [Suc n..<11]"
    using Suc.hyps Suc.prems n10 by (intro Suc.hyps(1)) auto
  moreover have "[n..<11] = n # [Suc n..<11]" using n10 by (simp add: upt_conv_Cons)
  ultimately show ?case using absent n10
    by (subst attemptScroll.simps) simp
qed

lemma handleHashNavigation_start:
  "hash \<noteq> [] \<Longrightarrow>
   handleHashNavigation hash doc late now =
     attemptScroll doc late (drop 1 hash) (attempt_time late now 0) 0"
  by (simp add: handleHashNavigation_def)

text \<open>
  C3. When the hash is not empty and no element with the fragment's id ever exists,
  the invocation looks the id up eleven times, once after the initial delay and once
  in each of 10 retries, each at the time its timer runs, and does nothing else: there
  is no twelfth lookup and no scroll invocation. The function is total, so the
  invocation ends and returns normally. With timers that run exactly when due the
  lookups are at 100ms, 200ms, ... 1100ms after the invocation.
\<close>

theorem hash_navigation_gives_up:
  assumes "hash \<noteq> []" and "\<forall>t. \<not> doc t (drop 1 hash)"
  shows "handleHashNavigation hash doc late now =
           map (\<lambda>k. Lookup (drop 1 hash) (attempt_time late now k)) [0..<11] \<and>
         length (handleHashNavigation hash doc late now) = 11 \<and>
         filter is_scroll (handleHashNavigation hash doc late now) = [] \<and>
         handleHashNavigation hash doc (\<lambda>k. 0) now =
           map (\<lambda>k. Lookup (drop 1 hash) (now + 100 * Suc k)) [0..<11]"
proof -
  have run: "handleHashNavigation hash doc l now =
               map (\<lambda>k. Lookup (drop 1 hash) (attempt_time l now k)) [0..<11]" for l
    using attemptScroll_absent[of 0 doc l now "drop 1 hash"] assms
    by (simp add: handleHashNavigation_start)
  have "filter is_scroll (map (\<lambda>k. Lookup (drop 1 hash) (attempt_time late now k)) [0..<11]) = []"
    by (simp add: filter_empty_conv)
  moreover have "length (map (\<lambda>k. Lookup (drop 1 hash) (attempt_time late now k)) [0..<11]) = 11"
    by simp
  ultimately show ?thesis
    using run[of late] run[of "\<lambda>k. 0"] by (simp only: attempt_time_punctual simp_thms)
qed

theorem hash_navigation_gives_up_witness:
  "''#missing'' \<noteq> [] \<and>
   handleHashNavigation ''#missing'' (\<lambda>t i. False) (\<lambda>k. 0) 0 =
     [Lookup ''missing'' 100, Lookup ''missing'' 200, Lookup ''missing'' 300,
      Lookup ''missing'' 400, Lookup ''missing'' 500, Lookup ''missing'' 600,
      Lookup ''missing'' 700, Lookup ''missing'' 800, Lookup ''missing'' 900,
      Lookup ''missing'' 1000, Lookup ''missing'' 1100] \<and>
   filter is_scroll (handleHashNavigation ''#missing'' (\<lambda>t i. False) (\<lambda>k. 0) 0) = []"
proof -
  have h1: "''#missing'' \<noteq> []" by simp
  have h2: "\<forall>t. \<not> (\<lambda>t i. False) t (drop 1 ''#missing'')" by simp
  from hash_navigation_gives_up[OF h1 h2, of "\<lambda>k. 0" 0]
  have run: "handleHashNavigation ''#missing'' (\<lambda>t i. False) (\<lambda>k. 0) 0 =
           map (\<lambda>k. Lookup (drop 1 ''#missing'') (0 + 100 * Suc k)) [0..<11]"
    and none: "filter is_scroll (handleHashNavigation ''#missing'' (\<lambda>t i. False) (\<lambda>k. 0) 0) = []"
    by blast+
  have "map (\<lambda>k. Lookup (drop 1 ''#missing'') (0 + 100 * Suc k)) [0..<11] =
     [Lookup ''missing'' 100, Lookup ''missing'' 200, Lookup ''missing'' 300,
      Lookup ''missing'' 400, Lookup ''missing'' 500, Lookup ''missing'' 600,
      Lookup ''missing'' 700, Lookup ''missing'' 800, Lookup ''missing'' 900,
      Lookup ''missing'' 1000, Lookup ''missing'' 1100]"
    by code_simp
  then show ?thesis using run none h1 by simp
qed

text \<open>
  C4. When the hash is not empty and the element is absent at the initial attempt and
  at the retries before the \<open>k\<close>-th, and present at the \<open>k\<close>-th retry (\<open>k \<le> 10\<close>), the
  invocation looks the id up \<open>k + 1\<close> times and then invokes the scroll on the element,
  exactly once, at the time of the \<open>k\<close>-th retry, which is at least the initial delay of
  100ms plus \<open>k\<close> retry intervals of 100ms after the invocation. For the hash
  \<open>#about\<close> with the element absent for the first 3 retries and present on the 4th, the
  one scroll invocation is 500ms after the invocation with punctual timers, which is
  after the initial delay plus 3 retry intervals.
\<close>

theorem hash_navigation_scrolls_once:
  assumes "hash \<noteq> []" and "k \<le> 10"
    and "\<forall>j<k. \<not> doc (attempt_time late now j) (drop 1 hash)"
    and "doc (attempt_time late now k) (drop 1 hash)"
  shows "handleHashNavigation hash doc late now =
           map (\<lambda>j. Lookup (drop 1 hash) (attempt_time late now j)) [0..<Suc k] @
           [ScrollIntoView (drop 1 hash) (attempt_time late now k)] \<and>
         filter is_scroll (handleHashNavigation hash doc late now) =
           [ScrollIntoView (drop 1 hash) (attempt_time late now k)] \<and>
         now + 100 + k * 100 \<le> attempt_time late now k"
proof -
  have run: "handleHashNavigation hash doc late now =
           map (\<lambda>j. Lookup (drop 1 hash) (attempt_time late now j)) [0..<Suc k] @
           [ScrollIntoView (drop 1 hash) (attempt_time late now k)]"
    using attemptScroll_found[of 0 k doc late now "drop 1 hash"] assms
    by (simp add: handleHashNavigation_start)
  have "filter is_scroll (map (\<lambda>j. Lookup (drop 1 hash) (attempt_time late now j)) [0..<Suc k]) = []"
    by (simp add: filter_empty_conv)
  then have "filter is_scroll (handleHashNavigation hash doc late now) =
           [ScrollIntoView (drop 1 hash) (attempt_time late now k)]"
    unfolding run by (simp only: filter_append filter.simps is_scroll.simps if_True append_Nil)
  then show ?thesis using run attempt_time_lower[of now k late] by simp
qed

theorem hash_navigation_scrolls_once_witness:
  "''#about'' \<noteq> [] \<and> (4::nat) \<le> 10 \<and>
   handleHashNavigation ''#about'' (\<lambda>t i. i = ''about'' \<and> 450 \<le> t) (\<lambda>k. 0) 0 =
     [Lookup ''about'' 100, Lookup ''about'' 200, Lookup ''about'' 300,
      Lookup ''about'' 400, Lookup ''about'' 500, ScrollIntoView ''about'' 500] \<and>
   filter is_scroll
     (handleHashNavigation ''#about'' (\<lambda>t i. i = ''about'' \<and> 450 \<le> t) (\<lambda>k. 0) 0) =
     [ScrollIntoView ''about'' 500] \<and>
   (0::nat) + 100 + 3 * 100 \<le> 500"
proof -
  let ?doc = "\<lambda>(t::nat) i. i = ''about'' \<and> 450 \<le> t"
  have h1: "''#about'' \<noteq> []" by simp
  have h2: "(4::nat) \<le> 10" by simp
  have h3: "\<forall>j<4. \<not> ?doc (attempt_time (\<lambda>k. 0) 0 j) (drop 1 ''#about'')"
    by (simp add: attempt_time_punctual)
  have h4: "?doc (attempt_time (\<lambda>k. 0) 0 4) (drop 1 ''#about'')"
    by (simp add: attempt_time_punctual)
  note inst = hash_navigation_scrolls_once[of "''#about''" 4 ?doc "\<lambda>k. 0" 0]
  from inst h1 h2 h3 h4
  have run: "handleHashNavigation ''#about'' ?doc (\<lambda>k. 0) 0 =
           map (\<lambda>j. Lookup (drop 1 ''#about'') (attempt_time (\<lambda>k. 0) 0 j)) [0..<Suc 4] @
           [ScrollIntoView (drop 1 ''#about'') (attempt_time (\<lambda>k. 0) 0 4)]"
    and once: "filter is_scroll (handleHashNavigation ''#about'' ?doc (\<lambda>k. 0) 0) =
           [ScrollIntoView (drop 1 ''#about'') (attempt_time (\<lambda>k. 0) 0 4)]"
    by blast+
  have "map (\<lambda>j. Lookup (drop 1 ''#about'') (attempt_time (\<lambda>k. 0) 0 j)) [0..<Suc 4] =
     [Lookup ''about'' 100, Lookup ''about'' 200, Lookup ''about'' 300,
      Lookup ''about'' 400, Lookup ''about'' 500]"
    unfolding attempt_time_punctual by code_simp
  moreover have "attempt_time (\<lambda>k. 0) 0 4 = 500" by (simp add: attempt_time_punctual)
  ultimately show ?thesis using run once h1 by simp
qed

section \<open>Control curves\<close>

subsection \<open>Evaluation of a curve with increasing breakpoints\<close>

lemma lerp_left: "lerp p q (fst p) = snd p"
  by (simp add: lerp_def)

lemma lerp_right: "fst p \<noteq> fst q \<Longrightarrow> lerp p q (fst q) = snd q"
  by (simp add: lerp_def)

lemma curve_nth_less:
  assumes "sorted_wrt (<) (map fst (c :: curve))" and "i < j" and "j < length c"
  shows "fst (c ! i) < fst (c ! j)"
proof -
  have "sorted_wrt (\<lambda>p q. fst p < fst q) c" using assms(1) by (simp add: sorted_wrt_map)
  then show ?thesis using assms(2,3) by (rule sorted_wrt_nth_less)
qed

lemma curve_nth_mono:
  assumes "sorted_wrt (<) (map fst (c :: curve))" and "i \<le> j" and "j < length c"
  shows "fst (c ! i) \<le> fst (c ! j)"
proof (cases "i = j")
  case True
  then show ?thesis by simp
next
  case False
  then have "i < j" using assms(2) by simp
  then show ?thesis using curve_nth_less[OF assms(1) _ assms(3)] by fastforce
qed

lemma between_segment:
  assumes "sorted_wrt (<) (map fst (p # rest))" and "i < length rest"
    and "fst ((p # rest) ! i) \<le> t" and "t < fst ((p # rest) ! Suc i)"
  shows "between p rest t = lerp ((p # rest) ! i) ((p # rest) ! Suc i) t"
  using assms
proof (induction rest arbitrary: p i)
  case Nil
  then show ?case by simp
next
  case (Cons q rest)
  show ?case
  proof (cases i)
    case 0
    then show ?thesis using Cons.prems by simp
  next
    case (Suc j)
    have sorted': "sorted_wrt (<) (map fst (q # rest))" using Cons.prems(1) by simp
    have j: "j < length rest" using Cons.prems(2) Suc by simp
    have "fst ((q # rest) ! 0) \<le> fst ((q # rest) ! j)"
      using j by (intro curve_nth_mono[OF sorted']) simp_all
    then have ge: "\<not> t < fst q" using Cons.prems(3) Suc by simp
    have "between q rest t = lerp ((q # rest) ! j) ((q # rest) ! Suc j) t"
      using Cons.prems(3,4) Suc by (intro Cons.IH[OF sorted' j]) simp_all
    then show ?thesis using ge Suc by simp
  qed
qed

lemma evaluate_below:
  "c \<noteq> [] \<Longrightarrow> t \<le> fst (hd c) \<Longrightarrow> evaluate c t = Some (snd (hd c))"
  by (cases c) (simp_all add: evaluate_def)

lemma evaluate_above:
  assumes "c \<noteq> []" and "sorted_wrt (<) (map fst c)" and "fst (last c) \<le> t"
  shows "evaluate c t = Some (snd (last c))"
proof (cases c)
  case Nil
  then show ?thesis using assms(1) by simp
next
  case (Cons p rest)
  show ?thesis
  proof (cases "t \<le> fst p")
    case False
    then show ?thesis using assms(3) Cons by (simp add: evaluate_def)
  next
    case True
    have "rest = []"
    proof (rule ccontr)
      assume ne: "rest \<noteq> []"
      then have "fst p < fst (last rest)" using assms(2) Cons by simp
      moreover have "last c = last rest" using ne Cons by simp
      ultimately show False using True assms(3) by simp
    qed
    then show ?thesis using Cons by (simp add: evaluate_def)
  qed
qed

lemma curve_below_last:
  assumes "sorted_wrt (<) (map fst (c :: curve))" and "j < length c"
  shows "fst (c ! j) \<le> fst (last c)"
proof -
  have "c \<noteq> []" using assms(2) by auto
  then have "last c = c ! (length c - 1)" by (rule last_conv_nth)
  moreover have "fst (c ! j) \<le> fst (c ! (length c - 1))"
    using assms by (intro curve_nth_mono) simp_all
  ultimately show ?thesis by simp
qed

lemma evaluate_inside:
  assumes "sorted_wrt (<) (map fst c)" and "Suc i < length c"
    and "fst (c ! i) < t" and "t < fst (c ! Suc i)"
  shows "evaluate c t = Some (lerp (c ! i) (c ! Suc i) t)"
proof (cases c)
  case Nil
  then show ?thesis using assms(2) by simp
next
  case (Cons p rest)
  have i: "i < length rest" using assms(2) Cons by simp
  have "fst (c ! 0) \<le> fst (c ! i)"
    using assms(1,2) by (intro curve_nth_mono) simp_all
  then have above: "\<not> t \<le> fst p" using assms(3) Cons by simp
  have "fst (c ! Suc i) \<le> fst (last c)" using assms(1,2) by (rule curve_below_last)
  then have below: "\<not> fst (last c) \<le> t" using assms(4) by simp
  have "between p rest t = lerp (c ! i) (c ! Suc i) t"
    using assms i unfolding Cons by (intro between_segment) simp_all
  then show ?thesis using above below Cons by (simp add: evaluate_def)
qed

lemma evaluate_at_breakpoint:
  assumes "sorted_wrt (<) (map fst c)" and "i < length c"
  shows "evaluate c (fst (c ! i)) = Some (snd (c ! i))"
proof -
  have ne: "c \<noteq> []" using assms(2) by auto
  consider "i = 0" | "Suc i = length c" | "0 < i" "Suc i < length c"
    using assms(2) by linarith
  then show ?thesis
  proof cases
    case 1
    then show ?thesis using evaluate_below[OF ne, of "fst (c ! i)"] ne by (simp add: hd_conv_nth)
  next
    case 2
    then have "i = length c - 1" by simp
    then have "last c = c ! i" using last_conv_nth[OF ne] by simp
    then show ?thesis using evaluate_above[OF ne assms(1), of "fst (c ! i)"] by simp
  next
    case 3
    obtain p rest where c: "c = p # rest" using ne by (cases c) auto
    have "fst (c ! 0) < fst (c ! i)"
      using assms 3 by (intro curve_nth_less) simp_all
    then have above: "\<not> fst (c ! i) \<le> fst p" using c by simp
    have lt: "fst (c ! i) < fst (c ! Suc i)"
      using assms 3 by (intro curve_nth_less) simp_all
    have "fst (c ! Suc i) \<le> fst (last c)" using assms(1) 3(2) by (rule curve_below_last)
    then have below: "\<not> fst (last c) \<le> fst (c ! i)" using lt by simp
    have "between p rest (fst (c ! i)) = lerp (c ! i) (c ! Suc i) (fst (c ! i))"
      using assms 3 lt unfolding c by (intro between_segment) simp_all
    then show ?thesis using above below c by (simp add: evaluate_def lerp_left)
  qed
qed

lemma evaluate_segment:
  assumes "sorted_wrt (<) (map fst c)" and "Suc i < length c"
    and "fst (c ! i) \<le> t" and "t \<le> fst (c ! Suc i)"
  shows "evaluate c t = Some (lerp (c ! i) (c ! Suc i) t)"
proof -
  have lt: "fst (c ! i) < fst (c ! Suc i)"
    using assms(1,2) by (intro curve_nth_less) simp_all
  consider "t = fst (c ! i)" | "t = fst (c ! Suc i)" | "fst (c ! i) < t" "t < fst (c ! Suc i)"
    using assms(3,4) by linarith
  then show ?thesis
  proof cases
    case 1
    then show ?thesis using evaluate_at_breakpoint[OF assms(1), of i] assms(2)
      by (simp add: lerp_left)
  next
    case 2
    then show ?thesis using evaluate_at_breakpoint[OF assms(1,2)] lt
      by (simp add: lerp_right)
  next
    case 3
    then show ?thesis using evaluate_inside[OF assms(1,2)] by simp
  qed
qed

text \<open>
  C2. For every curve given by a list of strictly increasing breakpoints and a list of
  as many values, the evaluation returns the first value at and below the first
  breakpoint, the last value at and above the last breakpoint, the \<open>i\<close>-th value at the
  \<open>i\<close>-th breakpoint, and between two adjacent breakpoints the linear interpolation of
  their values. The witness is the opacity curve of the \<open>useScrollSection\<close> hook,
  breakpoints [0, 0.2, 0.8, 1] with values [0, 1, 1, 0].
\<close>

theorem useTransform_piecewise_linear:
  assumes "length inputRange = length outputRange" and "inputRange \<noteq> []" and "sorted_wrt (<) inputRange"
  shows "(t \<le> hd inputRange \<longrightarrow> useTransform t inputRange outputRange = Some (hd outputRange)) \<and>
         (last inputRange \<le> t \<longrightarrow> useTransform t inputRange outputRange = Some (last outputRange)) \<and>
         (\<forall>i<length inputRange. useTransform (inputRange ! i) inputRange outputRange = Some (outputRange ! i)) \<and>
         (\<forall>i. Suc i < length inputRange \<and> inputRange ! i \<le> t \<and> t \<le> inputRange ! Suc i \<longrightarrow>
            useTransform t inputRange outputRange =
              Some (outputRange ! i + (outputRange ! Suc i - outputRange ! i) *
                      ((t - inputRange ! i) / (inputRange ! Suc i - inputRange ! i))))"
proof -
  let ?c = "zip inputRange outputRange"
  have out_ne: "outputRange \<noteq> []" using assms(1,2) by auto
  have ne: "?c \<noteq> []" using assms(2) out_ne by (cases inputRange; cases outputRange) simp_all
  have len: "length ?c = length inputRange" using assms(1) by simp
  have fsts: "map fst ?c = inputRange" using assms(1) by simp
  have sorted: "sorted_wrt (<) (map fst ?c)" using assms(3) fsts by simp
  have nth: "?c ! i = (inputRange ! i, outputRange ! i)" if "i < length inputRange" for i
    using that assms(1) by simp
  have hd: "hd ?c = (hd inputRange, hd outputRange)" using assms(2) out_ne by (rule hd_zip)
  have last: "last ?c = (last inputRange, last outputRange)"
    using assms(2) out_ne assms(1) by (rule last_zip)
  have below: "useTransform t inputRange outputRange = Some (hd outputRange)" if "t \<le> hd inputRange"
    using evaluate_below[OF ne, of t] that hd by (simp add: useTransform_def)
  have above: "useTransform t inputRange outputRange = Some (last outputRange)" if "last inputRange \<le> t"
    using evaluate_above[OF ne sorted, of t] that last by (simp add: useTransform_def)
  have at: "useTransform (inputRange ! i) inputRange outputRange = Some (outputRange ! i)"
    if "i < length inputRange" for i
    using evaluate_at_breakpoint[OF sorted, of i] that nth[OF that] len
    by (simp add: useTransform_def)
  have seg: "useTransform t inputRange outputRange =
              Some (outputRange ! i + (outputRange ! Suc i - outputRange ! i) *
                      ((t - inputRange ! i) / (inputRange ! Suc i - inputRange ! i)))"
    if "Suc i < length inputRange" and "inputRange ! i \<le> t" and "t \<le> inputRange ! Suc i" for i
  proof -
    have i: "i < length inputRange" using that(1) by simp
    have "evaluate ?c t = Some (lerp (?c ! i) (?c ! Suc i) t)"
      using that nth[OF i] nth[OF that(1)] len by (intro evaluate_segment[OF sorted]) simp_all
    then show ?thesis using nth[OF i] nth[OF that(1)] by (simp add: useTransform_def lerp_def)
  qed
  show ?thesis using below above at seg by blast
qed

theorem useTransform_piecewise_linear_witness:
  "length [0, 0.2, 0.8, 1 :: real] = length [0, 1, 1, 0 :: real] \<and>
   sorted_wrt (<) [0, 0.2, 0.8, 1 :: real] \<and>
   useScrollSection_opacity (- 1) = Some 0 \<and>
   useScrollSection_opacity 2 = Some 0 \<and>
   useScrollSection_opacity 0.2 = Some 1 \<and>
   useScrollSection_opacity 0.1 = Some 0.5"
proof -
  let ?input = "[0, 0.2, 0.8, 1 :: real]"
  let ?output = "[0, 1, 1, 0 :: real]"
  have h1: "length ?input = length ?output" by simp
  have h2: "?input \<noteq> []" by simp
  have h3: "sorted_wrt (<) ?input" by simp
  note inst = useTransform_piecewise_linear[OF h1 h2 h3]
  have "useTransform (- 1) ?input ?output = Some (hd ?output)"
    using inst[of "- 1"] by simp
  then have a: "useScrollSection_opacity (- 1) = Some 0"
    by (simp add: useScrollSection_opacity_def)
  have "useTransform 2 ?input ?output = Some (last ?output)"
    using inst[of 2] by simp
  then have b: "useScrollSection_opacity 2 = Some 0"
    by (simp add: useScrollSection_opacity_def)
  have "\<forall>i<length ?input. useTransform (?input ! i) ?input ?output = Some (?output ! i)"
    using inst[of 0] by blast
  from spec[OF this, of 1]
  have "useTransform (?input ! 1) ?input ?output = Some (?output ! 1)" by simp
  then have c: "useScrollSection_opacity 0.2 = Some 1"
    by (simp add: useScrollSection_opacity_def)
  have "Suc 0 < length ?input \<and> ?input ! 0 \<le> 0.1 \<and> 0.1 \<le> ?input ! Suc 0" by simp
  then have "useTransform 0.1 ?input ?output =
       Some (?output ! 0 + (?output ! Suc 0 - ?output ! 0) *
                      ((0.1 - ?input ! 0) / (?input ! Suc 0 - ?input ! 0)))"
    using inst[of "0.1"] by blast
  then have d: "useScrollSection_opacity 0.1 = Some 0.5"
    by (simp add: useScrollSection_opacity_def)
  show ?thesis using h1 h3 a b c d by blast
qed

subsection \<open>The curves of the section wrapper\<close>

lemmas curve_eval = useTransform_def evaluate_def lerp_def

lemma blendTopOpacity_cases:
  "blendTopOpacity t = Some (if t \<le> 0 then 1 else if 0.15 \<le> t then 0 else 1 - t / 0.15)"
  by (simp add: blendTopOpacity_def curve_eval)

lemma blendBottomOpacity_cases:
  "blendBottomOpacity t =
     Some (if t \<le> 0.85 then 0 else if 1 \<le> t then 1 else (t - 0.85) / 0.15)"
  by (simp add: blendBottomOpacity_def curve_eval)

lemma contentOpacity_cases:
  "contentOpacity t =
     Some (if t \<le> 0 then 0 else if 1 \<le> t then 0 else if t < 0.2 then t / 0.2
           else if t < 0.8 then 1 else 1 - (t - 0.8) / 0.2)"
  by (simp add: contentOpacity_def curve_eval)

lemma contentScale_cases:
  "contentScale t =
     Some (if t \<le> 0 then 0.95 else if 1 \<le> t then 0.98 else if t < 0.2 then 0.95 + 0.05 * (t / 0.2)
           else if t < 0.8 then 1 else 1 - 0.02 * ((t - 0.8) / 0.2))"
  by (simp add: contentScale_def curve_eval)

lemma contentY_cases:
  "contentY d t =
     Some (let a = (if d = ''up'' then 80 else if d = ''down'' then - 80 else 0)
           in if t \<le> 0 then a else if 1 \<le> t then - a
              else if t < 0.25 then a - a * (t / 0.25)
              else if t < 0.75 then 0 else - a * ((t - 0.75) / 0.25))"
  by (simp add: contentY_def curve_eval Let_def)

lemma contentX_cases:
  "contentX d t =
     Some (let a = (if d = ''left'' then 80 else if d = ''right'' then - 80 else 0)
           in if t \<le> 0 then a else if 1 \<le> t then - a
              else if t < 0.25 then a - a * (t / 0.25)
              else if t < 0.75 then 0 else - a * ((t - 0.75) / 0.25))"
  by (simp add: contentX_def curve_eval Let_def)

text \<open>
  C9. For every progress \<open>t\<close> from 0 to 1: the opacity of the top gradient overlay is 1
  at 0, falls linearly and is 0 from 0.15 on; the opacity of the bottom one is 0 up to
  0.85 and rises linearly to 1 at 1; the content opacity is 0 at 0 and at 1, and 1
  from 0.2 to 0.8; the content offset along the axis of the configured direction
  starts at 80 pixels (up, left) or -80 pixels (down, right), is 0 from 0.25 to 0.75
  and ends at the opposite value, while the offset along the other axis stays 0; the
  content scale is 0.95 at 0, 1 from 0.2 to 0.8 and 0.98 at 1.
\<close>

theorem section_composer_curves:
  assumes "0 \<le> t" and "t \<le> 1"
  shows "blendTopOpacity 0 = Some 1 \<and> blendTopOpacity 0.15 = Some 0 \<and>
         (t \<le> 0.15 \<longrightarrow> blendTopOpacity t = Some (1 - t / 0.15)) \<and>
         (0.15 \<le> t \<longrightarrow> blendTopOpacity t = Some 0) \<and>
         blendBottomOpacity 0.85 = Some 0 \<and> blendBottomOpacity 1 = Some 1 \<and>
         (t \<le> 0.85 \<longrightarrow> blendBottomOpacity t = Some 0) \<and>
         (0.85 \<le> t \<longrightarrow> blendBottomOpacity t = Some ((t - 0.85) / 0.15)) \<and>
         contentOpacity 0 = Some 0 \<and> contentOpacity 1 = Some 0 \<and>
         (0.2 \<le> t \<and> t \<le> 0.8 \<longrightarrow> contentOpacity t = Some 1) \<and>
         contentY ''up'' 0 = Some 80 \<and> contentY ''up'' 1 = Some (- 80) \<and>
         contentY ''down'' 0 = Some (- 80) \<and> contentY ''down'' 1 = Some 80 \<and>
         contentX ''left'' 0 = Some 80 \<and> contentX ''left'' 1 = Some (- 80) \<and>
         contentX ''right'' 0 = Some (- 80) \<and> contentX ''right'' 1 = Some 80 \<and>
         (0.25 \<le> t \<and> t \<le> 0.75 \<longrightarrow>
            contentY ''up'' t = Some 0 \<and> contentY ''down'' t = Some 0 \<and>
            contentX ''left'' t = Some 0 \<and> contentX ''right'' t = Some 0) \<and>
         (t \<le> 0.25 \<longrightarrow> contentY ''up'' t = Some (80 - 320 * t)) \<and>
         (0.75 \<le> t \<longrightarrow> contentY ''up'' t = Some (- (320 * (t - 0.75)))) \<and>
         contentY ''down'' t = map_option uminus (contentY ''up'' t) \<and>
         contentX ''left'' t = contentY ''up'' t \<and>
         contentX ''right'' t = contentY ''down'' t \<and>
         contentX ''up'' t = Some 0 \<and> contentX ''down'' t = Some 0 \<and>
         contentY ''left'' t = Some 0 \<and> contentY ''right'' t = Some 0 \<and>
         contentScale 0 = Some 0.95 \<and> contentScale 1 = Some 0.98 \<and>
         (0.2 \<le> t \<and> t \<le> 0.8 \<longrightarrow> contentScale t = Some 1)"
proof -
  have top: "blendTopOpacity 0 = Some 1 \<and> blendTopOpacity 0.15 = Some 0 \<and>
         (t \<le> 0.15 \<longrightarrow> blendTopOpacity t = Some (1 - t / 0.15)) \<and>
         (0.15 \<le> t \<longrightarrow> blendTopOpacity t = Some 0)"
    using assms by (simp add: blendTopOpacity_cases)
  have bottom: "blendBottomOpacity 0.85 = Some 0 \<and> blendBottomOpacity 1 = Some 1 \<and>
         (t \<le> 0.85 \<longrightarrow> blendBottomOpacity t = Some 0) \<and>
         (0.85 \<le> t \<longrightarrow> blendBottomOpacity t = Some ((t - 0.85) / 0.15))"
    using assms by (simp add: blendBottomOpacity_cases)
  have opacity: "contentOpacity 0 = Some 0 \<and> contentOpacity 1 = Some 0 \<and>
         (0.2 \<le> t \<and> t \<le> 0.8 \<longrightarrow> contentOpacity t = Some 1)"
    by (simp add: contentOpacity_cases)
  have ends: "contentY ''up'' 0 = Some 80 \<and> contentY ''up'' 1 = Some (- 80) \<and>
         contentY ''down'' 0 = Some (- 80) \<and> contentY ''down'' 1 = Some 80 \<and>
         contentX ''left'' 0 = Some 80 \<and> contentX ''left'' 1 = Some (- 80) \<and>
         contentX ''right'' 0 = Some (- 80) \<and> contentX ''right'' 1 = Some 80"
    by (simp add: contentY_cases contentX_cases Let_def)
  have middle: "0.25 \<le> t \<and> t \<le> 0.75 \<longrightarrow>
            contentY ''up'' t = Some 0 \<and> contentY ''down'' t = Some 0 \<and>
            contentX ''left'' t = Some 0 \<and> contentX ''right'' t = Some 0"
    by (simp add: contentY_cases contentX_cases Let_def)
  have slide: "(t \<le> 0.25 \<longrightarrow> contentY ''up'' t = Some (80 - 320 * t)) \<and>
         (0.75 \<le> t \<longrightarrow> contentY ''up'' t = Some (- (320 * (t - 0.75))))"
    using assms by (simp add: contentY_cases Let_def)
  have mirror: "contentY ''down'' t = map_option uminus (contentY ''up'' t) \<and>
         contentX ''left'' t = contentY ''up'' t \<and>
         contentX ''right'' t = contentY ''down'' t"
    by (simp add: contentY_cases contentX_cases Let_def)
  have other: "contentX ''up'' t = Some 0 \<and> contentX ''down'' t = Some 0 \<and>
         contentY ''left'' t = Some 0 \<and> contentY ''right'' t = Some 0"
    by (simp add: contentY_cases contentX_cases Let_def)
  have scale: "contentScale 0 = Some 0.95 \<and> contentScale 1 = Some 0.98 \<and>
         (0.2 \<le> t \<and> t \<le> 0.8 \<longrightarrow> contentScale t = Some 1)"
    by (simp add: contentScale_cases)
  show ?thesis using top bottom opacity ends middle slide mirror other scale
    by (elim conjE) (intro conjI; assumption)
qed

theorem section_composer_curves_witness:
  "(0::real) \<le> 0.5 \<and> (0.5::real) \<le> 1 \<and>
   blendTopOpacity 0.5 = Some 0 \<and> blendBottomOpacity 0.5 = Some 0 \<and>
   contentOpacity 0.5 = Some 1 \<and> contentY ''up'' 0.5 = Some 0 \<and>
   contentX ''left'' 0.5 = Some 0 \<and> contentScale 0.5 = Some 1"
proof -
  have h1: "(0::real) \<le> 0.5" by simp
  have h2: "(0.5::real) \<le> 1" by simp
  note inst = section_composer_curves[OF h1 h2]
  have "blendTopOpacity 0.5 = Some 0" using inst by simp
  moreover have "blendBottomOpacity 0.5 = Some 0" using inst by simp
  moreover have "contentOpacity 0.5 = Some 1" using inst by simp
  moreover have "contentY ''up'' 0.5 = Some 0" using inst by simp
  moreover have "contentX ''left'' 0.5 = Some 0" using inst by simp
  moreover have "contentScale 0.5 = Some 1" using inst by simp
  ultimately show ?thesis using h1 h2 by blast
qed

end
